theory Spec2Isabelle
  imports Main "HOL-Library.Word"
begin

section \<open>The command parser of i3 (src/commands\_parser.c)\<close>

text \<open>
  The parser is a state machine over a table of tokens per state. It keeps three static
  globals (the state, a stack of ten identified strings and the pending output) and walks a
  NUL-terminated input with a cursor \<open>walk\<close>.

  The tables and the call function are generated from the grammar (GENERATED\_enums.h,
  GENERATED\_tokens.h, GENERATED\_call.h) and are parameters of this development.
  The functions that are called (\<open>cmd_move\<close> and the like), the criteria they work on
  (\<open>current_match\<close>, \<open>cmd_criteria_init\<close>) and the debug log are outside the parser
  and are not modelled.
\<close>

subsection \<open>Data\<close>

text \<open>
  \<open>cmdp_state\<close> is the enumeration of GENERATED\_enums.h: the state \<open>INITIAL\<close>, the
  marker \<open>__CALL\<close> (here \<open>CALL\<close>) and the other states of the grammar, numbered.
\<close>

datatype cmdp_state = INITIAL | STATE nat | CALL

text \<open>
  \<open>struct token\<close>. The field \<open>next_state\<close> is called \<open>tok_next_state\<close> here (the
  function \<open>next_state\<close> keeps its name) and \<open>identifier\<close> is \<open>tok_identifier\<close>
  (\<open>struct stack_entry\<close> has a field of that name too). A NULL identifier is \<open>None\<close>.
\<close>

record cmdp_token =
  name :: string
  tok_identifier :: "string option"
  tok_next_state :: cmdp_state
  call_identifier :: "16 word"

text \<open>\<open>struct stack_entry\<close>; both pointers may be NULL. Its field \<open>identifier\<close> is
  \<open>entry_identifier\<close> here.\<close>

record stack_entry =
  entry_identifier :: "string option"
  str :: "string option"

text \<open>
  What ends the process or leaves defined behaviour: \<open>exit(1)\<close> on a full stack, and a
  read behind the terminating NUL of the input.
\<close>

datatype fatal = StackFull | BufferOverrun

text \<open>
  The static globals of the parser. \<open>calls\<close> is a log of the invocations of
  \<open>GENERATED_call\<close>: the call identifier and the stack the call could read.
  \<open>call_states\<close> logs, for the same invocations in the same order, the value of
  \<open>state\<close> the call could read.
\<close>

record parser =
  stack :: "stack_entry list"
  state :: cmdp_state
  json_output :: "string option"
  calls :: "(16 word \<times> stack_entry list) list"
  call_states :: "cmdp_state list"

text \<open>
  \<open>GENERATED_call\<close> is included after the declarations of the stack, \<open>state\<close> and
  \<open>json_output\<close>. It reads the stack through \<open>get_string\<close>, may assign \<open>state\<close>, and
  returns the output. What it could do to the stack is erased by the \<open>clear_stack\<close> that
  follows every call, and \<open>json_output\<close> is overwritten with its result, so for the parser
  a call is a function from the call identifier, the stack and the state to an output and
  the state it leaves.
\<close>

type_synonym generated_call =
  "16 word \<Rightarrow> stack_entry list \<Rightarrow> cmdp_state \<Rightarrow> string option \<times> cmdp_state"

type_synonym token_table = "cmdp_state \<Rightarrow> cmdp_token list"

subsection \<open>The stack\<close>

definition free_entry :: stack_entry where
  "free_entry = \<lparr>entry_identifier = None, str = None\<rparr>"

text \<open>The static array of ten entries, zero-initialised.\<close>

definition empty_stack :: "stack_entry list" where
  "empty_stack = replicate 10 free_entry"

text \<open>
  \<open>push_string\<close>: the loop over the slots, as a recursion over the array. The first slot
  whose identifier is NULL takes the pair; when the loop runs out of slots the process exits.
\<close>

fun push_string :: "string \<Rightarrow> string \<Rightarrow> stack_entry list \<Rightarrow> fatal + stack_entry list" where
  "push_string i s [] = Inl StackFull"
| "push_string i s (e # es) =
     (if entry_identifier e \<noteq> None then
        (case push_string i s es of Inl x \<Rightarrow> Inl x | Inr es' \<Rightarrow> Inr (e # es'))
      else Inr (\<lparr>entry_identifier = Some i, str = Some s\<rparr> # es))"

text \<open>
  \<open>get_string\<close>: stops at the first slot with a NULL identifier, returns the string of the
  first slot whose identifier compares equal, and NULL (\<open>None\<close>) after the last slot.
\<close>

fun get_string :: "string \<Rightarrow> stack_entry list \<Rightarrow> string option" where
  "get_string i [] = None"
| "get_string i (e # es) =
     (case entry_identifier e of
        None \<Rightarrow> None
      | Some j \<Rightarrow> if i = j then str e else get_string i es)"

definition clear_stack :: "stack_entry list \<Rightarrow> stack_entry list" where
  "clear_stack st = map (\<lambda>e. e\<lparr>entry_identifier := None, str := None\<rparr>) st"

subsection \<open>State transitions\<close>

definition next_state :: "generated_call \<Rightarrow> cmdp_token \<Rightarrow> parser \<Rightarrow> parser" where
  "next_state gc token p =
     (if tok_next_state token = CALL then
        (case gc (call_identifier token) (stack p) (state p) of
           (out, st) \<Rightarrow>
             p\<lparr>stack := clear_stack (stack p), state := st, json_output := out,
               calls := calls p @ [(call_identifier token, stack p)],
               call_states := call_states p @ [state p]\<rparr>)
      else if tok_next_state token = INITIAL then
        p\<lparr>stack := clear_stack (stack p), state := tok_next_state token\<rparr>
      else p\<lparr>state := tok_next_state token\<rparr>)"

subsection \<open>Scanning\<close>

text \<open>
  The input is a C string: the bytes of \<open>input\<close> followed by a NUL. The cursor \<open>walk\<close>
  points into it and is modelled by the bytes from \<open>*walk\<close> to the terminator, so that
  \<open>walk++\<close> drops the head, \<open>walk - input\<close> is the number of bytes dropped, and a read at
  the empty remainder is a read behind the terminator.
\<close>

definition NUL :: char where
  "NUL = CHR 0x00"

definition buffer :: "string \<Rightarrow> string" where
  "buffer input = input @ [NUL]"

definition offset :: "string \<Rightarrow> string \<Rightarrow> nat" where
  "offset input walk = length (buffer input) - length walk"

text \<open>\<open>tolower\<close> in the C locale.\<close>

definition tolower :: "char \<Rightarrow> char" where
  "tolower c =
     (case map_of (zip ''ABCDEFGHIJKLMNOPQRSTUVWXYZ'' ''abcdefghijklmnopqrstuvwxyz'') c of
        Some l \<Rightarrow> l
      | None \<Rightarrow> c)"

text \<open>
  \<open>strncasecmp(walk, lit, strlen(lit)) == 0\<close>: at most \<open>strlen(lit)\<close> bytes are compared
  without regard to case, and the comparison ends at the first difference or at a NUL.
  A literal has no NUL, so the comparison ends at the terminator of the input at the
  latest; the second equation (the input exhausted before the literal) is never reached
  on a terminated buffer.
\<close>

fun strncasecmp_eq :: "string \<Rightarrow> string \<Rightarrow> bool" where
  "strncasecmp_eq w [] = True"
| "strncasecmp_eq [] (l # ls) = False"
| "strncasecmp_eq (c # cs) (l # ls) =
     (tolower c = tolower l \<and> (c = NUL \<or> strncasecmp_eq cs ls))"

text \<open>\<open>while ((*walk == ' ' || *walk == '\t') && *walk != '\0') walk++;\<close>\<close>

fun skip_whitespace :: "string \<Rightarrow> fatal + string" where
  "skip_whitespace [] = Inl BufferOverrun"
| "skip_whitespace (c # cs) =
     (if (c = CHR 0x20 \<or> c = CHR 0x09) \<and> c \<noteq> NUL then skip_whitespace cs
      else Inr (c # cs))"

text \<open>
  The scan for the closing quote, \<open>while (*walk != '"' || *(walk-1) == '\\') walk++;\<close>.
  \<open>prev\<close> is the byte at \<open>walk - 1\<close>. The result is the bytes passed over and the cursor
  at the closing quote. The loop has no test for the terminator.
\<close>

fun scan_quoted :: "char \<Rightarrow> string \<Rightarrow> fatal + string \<times> string" where
  "scan_quoted prev [] = Inl BufferOverrun"
| "scan_quoted prev (c # cs) =
     (if c \<noteq> CHR 0x22 \<or> prev = CHR 0x5C then
        (case scan_quoted c cs of
           Inl x \<Rightarrow> Inl x
         | Inr (passed, walk) \<Rightarrow> Inr (c # passed, walk))
      else Inr ([], c # cs))"

text \<open>The delimiters of an unquoted string and of an unquoted word.\<close>

definition string_delimiter :: "char \<Rightarrow> bool" where
  "string_delimiter c \<longleftrightarrow> c = CHR 0x3B \<or> c = CHR 0x2C \<or> c = NUL"

definition word_delimiter :: "char \<Rightarrow> bool" where
  "word_delimiter c \<longleftrightarrow>
     c = CHR 0x20 \<or> c = CHR 0x09 \<or> c = CHR 0x5D \<or> c = CHR 0x2C \<or> c = CHR 0x3B \<or> c = NUL"

text \<open>The two loops \<open>while (*walk != ... && *walk != '\0') walk++;\<close>.\<close>

fun scan_until :: "(char \<Rightarrow> bool) \<Rightarrow> string \<Rightarrow> fatal + string \<times> string" where
  "scan_until delim [] = Inl BufferOverrun"
| "scan_until delim (c # cs) =
     (if \<not> delim c then
        (case scan_until delim cs of
           Inl x \<Rightarrow> Inl x
         | Inr (passed, walk) \<Rightarrow> Inr (c # passed, walk))
      else Inr ([], c # cs))"

text \<open>
  \<open>strncpy\<close> into the zeroed buffer of \<open>calloc\<close>: the bytes from \<open>beginning\<close> to \<open>walk\<close>,
  up to a NUL among them.
\<close>

definition strncpy :: "string \<Rightarrow> string" where
  "strncpy passed = takeWhile (\<lambda>c. c \<noteq> NUL) passed"

text \<open>The scan of a \<open>string\<close> or \<open>word\<close> token: quoted when the cursor is at a quote.\<close>

definition scan_capture :: "cmdp_token \<Rightarrow> string \<Rightarrow> fatal + string \<times> string" where
  "scan_capture token walk =
     (case walk of
        [] \<Rightarrow> Inl BufferOverrun
      | c # cs \<Rightarrow>
          if c = CHR 0x22 then scan_quoted c cs
          else if hd (name token) = CHR ''s'' then scan_until string_delimiter walk
          else scan_until word_delimiter walk)"

text \<open>\<open>if (token->identifier != NULL) push_string(token->identifier, str);\<close>\<close>

definition push_identified :: "cmdp_token \<Rightarrow> string \<Rightarrow> parser \<Rightarrow> fatal + parser" where
  "push_identified token s p =
     (case tok_identifier token of
        None \<Rightarrow> Inr p
      | Some i \<Rightarrow>
          (case push_string i s (stack p) of
             Inl x \<Rightarrow> Inl x
           | Inr st \<Rightarrow> Inr (p\<lparr>stack := st\<rparr>)))"

text \<open>
  One round of the loop over the tokens of the state: the token is handled, or it is not
  and the next token is tried with the cursor as this round left it.
\<close>

datatype attempt = Matched parser string | NoMatch string

definition try_token :: "generated_call \<Rightarrow> cmdp_token \<Rightarrow> parser \<Rightarrow> string \<Rightarrow> fatal + attempt" where
  "try_token gc token p walk =
     (if name token \<noteq> [] \<and> hd (name token) = CHR 0x27 then
        (if strncasecmp_eq walk (tl (name token)) then
           (case push_identified token (tl (name token)) p of
              Inl x \<Rightarrow> Inl x
            | Inr p' \<Rightarrow>
                Inr (Matched (next_state gc token p') (drop (length (tl (name token))) walk)))
         else Inr (NoMatch walk))
      else if name token = ''string'' \<or> name token = ''word'' then
        (case scan_capture token walk of
           Inl x \<Rightarrow> Inl x
         | Inr (passed, walk') \<Rightarrow>
             if passed \<noteq> [] then
               (case push_identified token (strncpy passed) p of
                  Inl x \<Rightarrow> Inl x
                | Inr p' \<Rightarrow>
                    (case walk' of
                       [] \<Rightarrow> Inl BufferOverrun
                     | c # cs \<Rightarrow>
                         Inr (Matched (next_state gc token p')
                               (if c = CHR 0x22 then cs else walk'))))
             else Inr (NoMatch walk'))
      else if name token = ''end'' then
        (case walk of
           [] \<Rightarrow> Inl BufferOverrun
         | c # cs \<Rightarrow>
             if c = NUL \<or> c = CHR 0x2C \<or> c = CHR 0x3B then
               Inr (Matched (next_state gc token p) cs)
             else Inr (NoMatch walk))
      else Inr (NoMatch walk))"

fun try_tokens :: "generated_call \<Rightarrow> cmdp_token list \<Rightarrow> parser \<Rightarrow> string \<Rightarrow> fatal + attempt" where
  "try_tokens gc [] p walk = Inr (NoMatch walk)"
| "try_tokens gc (token # ts) p walk =
     (case try_token gc token p walk of
        Inl x \<Rightarrow> Inl x
      | Inr (Matched p' walk') \<Rightarrow> Inr (Matched p' walk')
      | Inr (NoMatch walk') \<Rightarrow> try_tokens gc ts p walk')"

subsection \<open>The error message\<close>

definition token_label :: "cmdp_token \<Rightarrow> string" where
  "token_label token =
     (if name token \<noteq> [] \<and> hd (name token) = CHR 0x27
      then [CHR 0x27] @ tl (name token) @ [CHR 0x27]
      else ''<'' @ name token @ ''>'')"

fun possible_tokens :: "cmdp_token list \<Rightarrow> string" where
  "possible_tokens [] = []"
| "possible_tokens [token] = token_label token"
| "possible_tokens (token # ts) = token_label token @ '', '' @ possible_tokens ts"

text \<open>The line of blanks and carets: a caret at every column from the cursor on.\<close>

definition position :: "string \<Rightarrow> string \<Rightarrow> string" where
  "position input walk =
     map (\<lambda>i. if offset input walk \<le> i then CHR 0x5E else CHR 0x20) [0..<length input]"

text \<open>The three lines printed when no token of the state was handled.\<close>

definition error_lines :: "cmdp_token list \<Rightarrow> string \<Rightarrow> string \<Rightarrow> string list" where
  "error_lines ts input walk =
     [''Expected one of these tokens: '' @ possible_tokens ts,
      ''Your command: '' @ input,
      ''              '' @ position input walk]"

subsection \<open>The parser\<close>

text \<open>
  What \<open>parse_command\<close> leaves behind: the globals, the value it returns and the lines
  it printed (none when the loop ended without an error).
\<close>

record outcome =
  globals :: parser
  returned :: "string option"
  printed :: "string list"

text \<open>
  The loop \<open>while ((walk - input) <= len)\<close>. The cursor is within the buffer exactly when
  its remainder is not empty. The loop need not end (a literal with an empty text consumes
  nothing), so the result is an option and \<open>None\<close> stands for a run without end.
\<close>

partial_function (option) parse_loop ::
  "generated_call \<Rightarrow> token_table \<Rightarrow> string \<Rightarrow> parser \<Rightarrow> string \<Rightarrow> (fatal + outcome) option"
where
  "parse_loop gc tokens input p walk =
     (if walk = [] then
        Some (Inr \<lparr>globals = p, returned = json_output p, printed = []\<rparr>)
      else
        (case skip_whitespace walk of
           Inl x \<Rightarrow> Some (Inl x)
         | Inr walk1 \<Rightarrow>
             (case try_tokens gc (tokens (state p)) p walk1 of
                Inl x \<Rightarrow> Some (Inl x)
              | Inr (Matched p' walk') \<Rightarrow> parse_loop gc tokens input p' walk'
              | Inr (NoMatch walk') \<Rightarrow>
                  Some (Inr \<lparr>globals = p, returned = json_output p,
                             printed = error_lines (tokens (state p)) input walk'\<rparr>))))"

declare parse_loop.simps [code]

text \<open>
  \<open>parse_command\<close> sets the state and the output and leaves the stack as the last call
  left it; \<open>p\<close> holds the globals at entry.
\<close>

definition parse_command ::
  "generated_call \<Rightarrow> token_table \<Rightarrow> parser \<Rightarrow> string \<Rightarrow> (fatal + outcome) option" where
  "parse_command gc tokens p input =
     parse_loop gc tokens input (p\<lparr>state := INITIAL, json_output := None\<rparr>) (buffer input)"

text \<open>The globals when the program starts.\<close>

definition initial_parser :: parser where
  "initial_parser = \<lparr>stack = empty_stack, state = INITIAL, json_output = None, calls = [],
     call_states = []\<rparr>"

subsection \<open>Notions used in the statements\<close>

text \<open>A live stack entry, as \<open>push_string\<close> writes it.\<close>

definition entry :: "string \<times> string \<Rightarrow> stack_entry" where
  "entry q = \<lparr>entry_identifier = Some (fst q), str = Some (snd q)\<rparr>"

text \<open>A sequence of calls of \<open>push_string\<close>, in order.\<close>

fun push_all :: "(string \<times> string) list \<Rightarrow> stack_entry list \<Rightarrow> fatal + stack_entry list" where
  "push_all [] st = Inr st"
| "push_all ((i, s) # qs) st =
     (case push_string i s st of Inl x \<Rightarrow> Inl x | Inr st' \<Rightarrow> push_all qs st')"

text \<open>
  \<open>pushed_by t p p0\<close>: the globals \<open>p0\<close> are \<open>p\<close>, or \<open>p\<close> after a push under the
  identifier of the token \<open>t\<close>.
\<close>

definition pushed_by :: "cmdp_token \<Rightarrow> parser \<Rightarrow> parser \<Rightarrow> bool" where
  "pushed_by t p p0 \<longleftrightarrow>
     p0 = p \<or>
     (\<exists>i s st. tok_identifier t = Some i \<and> push_string i s (stack p) = Inr st \<and>
        p0 = p\<lparr>stack := st\<rparr>)"

text \<open>
  A small grammar for the examples: \<open>'move'\<close> leads from \<open>INITIAL\<close> to state 1, where a
  word identified as \<open>direction\<close> calls function 7; \<open>end\<close> keeps \<open>INITIAL\<close>.
\<close>

definition move_token :: cmdp_token where
  "move_token = \<lparr>name = CHR 0x27 # ''move'', tok_identifier = None,
     tok_next_state = STATE 1, call_identifier = 0\<rparr>"

definition end_token :: cmdp_token where
  "end_token = \<lparr>name = ''end'', tok_identifier = None,
     tok_next_state = INITIAL, call_identifier = 0\<rparr>"

definition direction_token :: cmdp_token where
  "direction_token = \<lparr>name = ''word'', tok_identifier = Some ''direction'',
     tok_next_state = CALL, call_identifier = 7\<rparr>"

definition example_tokens :: token_table where
  "example_tokens s =
     (case s of
        INITIAL \<Rightarrow> [move_token, end_token]
      | STATE n \<Rightarrow> (if n = 1 then [direction_token] else [])
      | CALL \<Rightarrow> [])"

text \<open>
  The same grammar without the \<open>end\<close> token: \<open>INITIAL\<close> accepts \<open>'move'\<close> only.
\<close>

definition scenario_tokens :: token_table where
  "scenario_tokens s =
     (case s of
        INITIAL \<Rightarrow> [move_token]
      | STATE n \<Rightarrow> (if n = 1 then [direction_token] else [])
      | CALL \<Rightarrow> [])"

text \<open>A literal with an identifier, as in \<open>direction = 'left'\<close>.\<close>

definition left_token :: cmdp_token where
  "left_token = \<lparr>name = CHR 0x27 # ''left'', tok_identifier = Some ''direction'',
     tok_next_state = CALL, call_identifier = 7\<rparr>"

text \<open>
  Two call functions for the examples. Both return the string identified as
  \<open>direction\<close>; the first assigns \<open>INITIAL\<close> to the state, the second leaves the state
  as it is.
\<close>

definition call_to_initial :: generated_call where
  "call_to_initial k st s = (get_string ''direction'' st, INITIAL)"

definition call_keep_state :: generated_call where
  "call_keep_state k st s = (get_string ''direction'' st, s)"




section \<open>Properties\<close>

lemmas eval_defs = try_token_def scan_capture_def push_identified_def next_state_def
  example_tokens_def scenario_tokens_def move_token_def end_token_def direction_token_def left_token_def
  call_to_initial_def call_keep_state_def initial_parser_def
  empty_stack_def free_entry_def buffer_def NUL_def clear_stack_def strncpy_def
  word_delimiter_def string_delimiter_def tolower_def eval_nat_numeral

subsection \<open>The stack\<close>

lemma push_string_live:
  "push_string i s (map entry qs @ replicate (Suc n) free_entry)
     = Inr (map entry (qs @ [(i, s)]) @ replicate n free_entry)"
  by (induction qs) (simp_all add: entry_def free_entry_def)

lemma get_string_live:
  "get_string i (map entry qs @ replicate n free_entry) = map_of qs i"
proof (induction qs)
  case Nil
  then show ?case by (cases n) (simp_all add: free_entry_def)
next
  case (Cons q qs)
  then show ?case by (cases q) (auto simp add: entry_def)
qed

lemma push_all_live:
  "length ps \<le> n \<Longrightarrow>
   push_all ps (map entry qs @ replicate n free_entry)
     = Inr (map entry (qs @ ps) @ replicate (n - length ps) free_entry)"
proof (induction ps arbitrary: qs n)
  case Nil
  then show ?case by simp
next
  case (Cons a ps)
  obtain i s where a: "a = (i, s)" by (cases a)
  from Cons.prems obtain m where n: "n = Suc m" by (cases n) auto
  with Cons.prems have "length ps \<le> m" by simp
  have "push_string i s (map entry qs @ replicate n free_entry)
          = Inr (map entry (qs @ [(i, s)]) @ replicate m free_entry)"
    unfolding n by (rule push_string_live)
  with Cons.IH [OF \<open>length ps \<le> m\<close>, of "qs @ [(i, s)]"] show ?case
    by (simp add: a n)
qed

text \<open>
  C6, as the code has it. After any sequence of at most ten pushes on the empty stack,
  \<open>get_string\<close> returns the string of the earliest push under the identifier asked for
  (\<open>map_of\<close> takes the first pair with that key), and NULL when nothing was pushed under
  it.
\<close>

theorem get_string_earliest:
  "length ps \<le> 10 \<Longrightarrow>
   \<exists>st. push_all ps empty_stack = Inr st \<and> get_string i st = map_of ps i"
  using push_all_live [of ps 10 "[]"] get_string_live [of i ps "10 - length ps"]
  by (simp add: empty_stack_def)

theorem get_string_earliest_witness:
  "length [(''x'', ''1''), (''y'', ''2''), (''x'', ''3'')] \<le> (10::nat) \<and>
   (\<exists>st. push_all [(''x'', ''1''), (''y'', ''2''), (''x'', ''3'')] empty_stack = Inr st \<and>
      get_string ''x'' st = Some ''1'')"
  using get_string_earliest [of "[(''x'', ''1''), (''y'', ''2''), (''x'', ''3'')]" "''x''"]
  by simp

text \<open>
  C6, as the specification states it, fails: after the pushes of \<open>x\<close> with 1 and then
  \<open>x\<close> with 2, the lookup of \<open>x\<close> gives 1, not the string pushed last.
\<close>

theorem get_string_most_recent_counterexample:
  "map_sum id (get_string ''x'') (push_all [(''x'', ''1''), (''x'', ''2'')] empty_stack)
     = Inr (Some ''1'') \<and>
   map_sum id (get_string ''x'') (push_all [(''x'', ''1''), (''x'', ''2'')] empty_stack)
     \<noteq> Inr (Some ''2'')"
  by (simp add: empty_stack_def free_entry_def eval_nat_numeral)

lemma push_string_cases:
  "(push_string i s st = Inl StackFull \<and> (\<forall>e \<in> set st. entry_identifier e \<noteq> None)) \<or>
   (\<exists>k < length st. entry_identifier (st ! k) = None \<and>
      (\<forall>j < k. entry_identifier (st ! j) \<noteq> None) \<and>
      push_string i s st = Inr (st[k := \<lparr>entry_identifier = Some i, str = Some s\<rparr>]))"
proof (induction st)
  case Nil
  then show ?case by simp
next
  case (Cons e es)
  show ?case
  proof (cases "entry_identifier e")
    case None
    then have "push_string i s (e # es)
        = Inr ((e # es)[0 := \<lparr>entry_identifier = Some i, str = Some s\<rparr>])"
      by simp
    with None show ?thesis by (intro disjI2 exI [of _ 0]) simp
  next
    case (Some a)
    from Cons.IH show ?thesis
    proof
      assume "push_string i s es = Inl StackFull \<and> (\<forall>e \<in> set es. entry_identifier e \<noteq> None)"
      with Some show ?thesis by simp
    next
      assume "\<exists>k < length es. entry_identifier (es ! k) = None \<and>
        (\<forall>j < k. entry_identifier (es ! j) \<noteq> None) \<and>
        push_string i s es = Inr (es[k := \<lparr>entry_identifier = Some i, str = Some s\<rparr>])"
      then obtain k where k: "k < length es" "entry_identifier (es ! k) = None"
        "\<forall>j < k. entry_identifier (es ! j) \<noteq> None"
        "push_string i s es = Inr (es[k := \<lparr>entry_identifier = Some i, str = Some s\<rparr>])"
        by blast
      have "\<forall>j < Suc k. entry_identifier ((e # es) ! j) \<noteq> None"
        using k(3) Some by (auto simp: nth_Cons split: nat.splits)
      with k Some show ?thesis
        by (intro disjI2 exI [of _ "Suc k"]) simp
    qed
  qed
qed

text \<open>
  C8. On the array of ten slots: when every slot is taken, \<open>push_string\<close> ends the
  process (\<open>StackFull\<close>, the \<open>exit(1)\<close>); when a slot is free, the pair is stored in a
  free slot \<open>k\<close> and every other slot is as it was (the result is the array updated at
  \<open>k\<close>). So no push is dropped and no live entry is overwritten.
\<close>

theorem push_string_full_or_free_slot:
  assumes "length st = 10"
  shows "((\<forall>e \<in> set st. entry_identifier e \<noteq> None) \<longrightarrow> push_string i s st = Inl StackFull) \<and>
         ((\<exists>e \<in> set st. entry_identifier e = None) \<longrightarrow>
            (\<exists>k < 10. entry_identifier (st ! k) = None \<and>
               push_string i s st = Inr (st[k := \<lparr>entry_identifier = Some i, str = Some s\<rparr>])))"
proof -
  from push_string_cases [of i s st] show ?thesis
  proof
    assume "push_string i s st = Inl StackFull \<and> (\<forall>e \<in> set st. entry_identifier e \<noteq> None)"
    then show ?thesis by auto
  next
    assume "\<exists>k < length st. entry_identifier (st ! k) = None \<and>
      (\<forall>j < k. entry_identifier (st ! j) \<noteq> None) \<and>
      push_string i s st = Inr (st[k := \<lparr>entry_identifier = Some i, str = Some s\<rparr>])"
    then obtain k where k: "k < length st" "entry_identifier (st ! k) = None"
      "push_string i s st = Inr (st[k := \<lparr>entry_identifier = Some i, str = Some s\<rparr>])"
      by blast
    from k(1,2) have "\<not> (\<forall>e \<in> set st. entry_identifier e \<noteq> None)"
      using nth_mem by blast
    with k assms show ?thesis by auto
  qed
qed

theorem push_string_full_or_free_slot_witness:
  "length (replicate 10 (entry (''a'', ''b''))) = 10 \<and>
   list_all (\<lambda>e. entry_identifier e \<noteq> None) (replicate 10 (entry (''a'', ''b''))) \<and>
   push_string ''x'' ''y'' (replicate 10 (entry (''a'', ''b''))) = Inl StackFull \<and>
   length (replicate 9 (entry (''a'', ''b'')) @ [free_entry]) = 10 \<and>
   (\<exists>e \<in> set (replicate 9 (entry (''a'', ''b'')) @ [free_entry]). entry_identifier e = None) \<and>
   (\<exists>k < 10. entry_identifier ((replicate 9 (entry (''a'', ''b'')) @ [free_entry]) ! k) = None \<and>
      push_string ''x'' ''y'' (replicate 9 (entry (''a'', ''b'')) @ [free_entry])
        = Inr ((replicate 9 (entry (''a'', ''b'')) @ [free_entry])
                 [k := \<lparr>entry_identifier = Some ''x'', str = Some ''y''\<rparr>]))"
  using push_string_full_or_free_slot [of "replicate 10 (entry (''a'', ''b''))" "''x''" "''y''"]
    push_string_full_or_free_slot [of "replicate 9 (entry (''a'', ''b'')) @ [free_entry]" "''x''" "''y''"]
  by (simp add: entry_def free_entry_def list_all_iff)

subsection \<open>Transitions\<close>

lemma get_string_clear_stack: "get_string i (clear_stack st) = None"
  by (cases st) (simp_all add: clear_stack_def)

lemma clear_stack_free:
  "e \<in> set (clear_stack st) \<Longrightarrow> entry_identifier e = None \<and> str e = None"
  by (auto simp: clear_stack_def)

lemma next_state_stack:
  "tok_next_state t = CALL \<or> state (next_state gc t p) = INITIAL \<Longrightarrow>
   stack (next_state gc t p) = clear_stack (stack p)"
  by (auto simp: next_state_def split: prod.splits if_splits)

lemma next_state_calls:
  "calls (next_state gc t p) =
     (if tok_next_state t = CALL then calls p @ [(call_identifier t, stack p)] else calls p)"
  by (auto simp: next_state_def split: prod.splits)

text \<open>The four kinds of token, each with its branch of \<open>try_token\<close>.\<close>

lemma try_token_literal:
  "name t \<noteq> [] \<and> hd (name t) = CHR 0x27 \<Longrightarrow>
   try_token gc t p walk =
     (if strncasecmp_eq walk (tl (name t)) then
        (case push_identified t (tl (name t)) p of
           Inl x \<Rightarrow> Inl x
         | Inr p' \<Rightarrow>
             Inr (Matched (next_state gc t p') (drop (length (tl (name t))) walk)))
      else Inr (NoMatch walk))"
  by (simp add: try_token_def)

lemma try_token_capture:
  "name t = ''string'' \<or> name t = ''word'' \<Longrightarrow>
   try_token gc t p walk =
     (case scan_capture t walk of
        Inl x \<Rightarrow> Inl x
      | Inr (passed, walk') \<Rightarrow>
          if passed \<noteq> [] then
            (case push_identified t (strncpy passed) p of
               Inl x \<Rightarrow> Inl x
             | Inr p' \<Rightarrow>
                 (case walk' of
                    [] \<Rightarrow> Inl BufferOverrun
                  | c # cs \<Rightarrow>
                      Inr (Matched (next_state gc t p')
                            (if c = CHR 0x22 then cs else walk'))))
          else Inr (NoMatch walk'))"
  by (auto simp: try_token_def)

lemma try_token_end:
  "name t = ''end'' \<Longrightarrow>
   try_token gc t p walk =
     (case walk of
        [] \<Rightarrow> Inl BufferOverrun
      | c # cs \<Rightarrow>
          if c = NUL \<or> c = CHR 0x2C \<or> c = CHR 0x3B then
            Inr (Matched (next_state gc t p) cs)
          else Inr (NoMatch walk))"
  by (simp add: try_token_def)

lemma try_token_other:
  "\<not> (name t \<noteq> [] \<and> hd (name t) = CHR 0x27) \<Longrightarrow>
   name t \<noteq> ''string'' \<Longrightarrow> name t \<noteq> ''word'' \<Longrightarrow> name t \<noteq> ''end'' \<Longrightarrow>
   try_token gc t p walk = Inr (NoMatch walk)"
  by (auto simp: try_token_def)

lemma try_token_Matched:
  assumes "try_token gc t p walk = Inr (Matched p' walk')"
  shows "\<exists>p0. pushed_by t p p0 \<and> p' = next_state gc t p0"
  using assms unfolding pushed_by_def
  by (auto simp: try_token_def push_identified_def
      split: if_splits sum.splits prod.splits list.splits option.splits)

lemma try_tokens_Matched:
  assumes "try_tokens gc ts p walk = Inr (Matched p' walk')"
  shows "\<exists>t \<in> set ts. \<exists>p0. pushed_by t p p0 \<and> p' = next_state gc t p0"
  using assms
proof (induction ts arbitrary: walk)
  case Nil
  then show ?case by simp
next
  case (Cons t ts)
  show ?case
  proof (cases "try_token gc t p walk")
    case (Inl x)
    with Cons.prems show ?thesis by simp
  next
    case (Inr a)
    show ?thesis
    proof (cases a)
      case (Matched q w)
      with Inr Cons.prems have "try_token gc t p walk = Inr (Matched p' walk')" by simp
      from try_token_Matched [OF this] show ?thesis by auto
    next
      case (NoMatch w)
      with Inr Cons.prems have "try_tokens gc ts p w = Inr (Matched p' walk')" by simp
      from Cons.IH [OF this] show ?thesis by auto
    qed
  qed
qed

text \<open>
  C7. For every round of the loop that handles a token: if the round called
  \<open>GENERATED_call\<close> (the log of calls grew) or left the state at \<open>INITIAL\<close>, then no
  slot of the stack holds an entry afterwards and \<open>get_string\<close> returns NULL for every
  identifier.
\<close>

theorem stack_empty_after_dispatch_or_initial:
  assumes "try_tokens gc ts p walk = Inr (Matched p' walk')"
    and "calls p' \<noteq> calls p \<or> state p' = INITIAL"
  shows "(\<forall>e \<in> set (stack p'). entry_identifier e = None \<and> str e = None) \<and>
         get_string i (stack p') = None"
proof -
  from try_tokens_Matched [OF assms(1)] obtain t p0
    where p0: "pushed_by t p p0" and p': "p' = next_state gc t p0"
    by blast
  from p0 have "calls p0 = calls p"
    by (auto simp: pushed_by_def)
  with assms(2) p' have "tok_next_state t = CALL \<or> state (next_state gc t p0) = INITIAL"
    by (auto simp: next_state_calls split: if_splits)
  from next_state_stack [OF this] p' have "stack p' = clear_stack (stack p0)" by simp
  then show ?thesis
    by (simp add: get_string_clear_stack clear_stack_free)
qed

theorem stack_empty_after_dispatch_or_initial_witness:
  "\<exists>p' walk'.
     try_tokens call_to_initial (example_tokens (STATE 1))
       (initial_parser\<lparr>state := STATE 1\<rparr>) (buffer ''left'') = Inr (Matched p' walk') \<and>
     (calls p' \<noteq> calls (initial_parser\<lparr>state := STATE 1\<rparr>) \<or> state p' = INITIAL) \<and>
     (\<forall>e \<in> set (stack p'). entry_identifier e = None \<and> str e = None) \<and>
     get_string ''direction'' (stack p') = None"
proof -
  have "\<exists>p' walk'.
     try_tokens call_to_initial (example_tokens (STATE 1))
       (initial_parser\<lparr>state := STATE 1\<rparr>) (buffer ''left'') = Inr (Matched p' walk') \<and>
     state p' = INITIAL"
    by (simp add: eval_defs)
  then obtain p' walk' where
    a: "try_tokens call_to_initial (example_tokens (STATE 1))
       (initial_parser\<lparr>state := STATE 1\<rparr>) (buffer ''left'') = Inr (Matched p' walk')"
    and b: "state p' = INITIAL"
    by blast
  from b have c: "calls p' \<noteq> calls (initial_parser\<lparr>state := STATE 1\<rparr>) \<or> state p' = INITIAL"
    by simp
  from stack_empty_after_dispatch_or_initial [OF a c, of "''direction''"] a c
  show ?thesis by blast
qed

text \<open>
  C3, as the code has it. When the handled token has \<open>__CALL\<close> as its next state,
  \<open>GENERATED_call\<close> is called with the token's call identifier on the stack as it is
  after the token's own push: for a token with an identifier, the stack with the text of
  the literal, or with the string or word that was scanned, pushed on it (\<open>end\<close> pushes
  nothing). The result of the call becomes \<open>json_output\<close> and the stack is cleared.
  \<open>next_state\<close> returns without assigning \<open>state\<close>: the state after the round is the
  one the call left.
\<close>

theorem dispatch_records_and_clears:
  assumes "try_token gc t p walk = Inr (Matched p' walk')"
    and "tok_next_state t = CALL"
  shows "\<exists>st0.
           (case tok_identifier t of
              None \<Rightarrow> st0 = stack p
            | Some i \<Rightarrow>
                if name t \<noteq> [] \<and> hd (name t) = CHR 0x27 then
                  push_string i (tl (name t)) (stack p) = Inr st0
                else if name t = ''string'' \<or> name t = ''word'' then
                  (\<exists>passed w. scan_capture t walk = Inr (passed, w) \<and> passed \<noteq> [] \<and>
                     push_string i (strncpy passed) (stack p) = Inr st0)
                else st0 = stack p) \<and>
           calls p' = calls p @ [(call_identifier t, st0)] \<and>
           json_output p' = fst (gc (call_identifier t) st0 (state p)) \<and>
           state p' = snd (gc (call_identifier t) st0 (state p)) \<and>
           stack p' = clear_stack st0"
proof -
  consider (lit) "name t \<noteq> [] \<and> hd (name t) = CHR 0x27"
    | (cap) "name t = ''string'' \<or> name t = ''word''"
    | (endt) "name t = ''end''"
    | (other) "\<not> (name t \<noteq> [] \<and> hd (name t) = CHR 0x27)" "name t \<noteq> ''string''"
        "name t \<noteq> ''word''" "name t \<noteq> ''end''"
    by blast
  then show ?thesis
  proof cases
    case lit
    with assms show ?thesis
      by (auto simp: try_token_literal [OF lit] push_identified_def next_state_def
          split: if_splits sum.splits option.splits prod.splits)
  next
    case cap
    then have nl: "\<not> (name t \<noteq> [] \<and> hd (name t) = CHR 0x27)" by auto
    from assms cap nl show ?thesis
      by (auto simp: try_token_capture [OF cap] push_identified_def next_state_def
          split: if_splits sum.splits option.splits prod.splits list.splits)
  next
    case endt
    then have nl: "\<not> (name t \<noteq> [] \<and> hd (name t) = CHR 0x27)" 
      "\<not> (name t = ''string'' \<or> name t = ''word'')" by auto
    from assms nl show ?thesis
      by (auto simp: try_token_end [OF endt] next_state_def
          split: if_splits option.splits prod.splits list.splits)
  next
    case other
    with assms show ?thesis by (simp add: try_token_other)
  qed
qed

theorem dispatch_records_and_clears_witness:
  "\<exists>p' walk' st0.
     try_token call_keep_state direction_token (initial_parser\<lparr>state := STATE 1\<rparr>)
       (buffer ''left'') = Inr (Matched p' walk') \<and>
     tok_next_state direction_token = CALL \<and>
     push_string ''direction'' ''left'' (stack (initial_parser\<lparr>state := STATE 1\<rparr>)) = Inr st0 \<and>
     get_string ''direction'' st0 = Some ''left'' \<and>
     calls p' = calls (initial_parser\<lparr>state := STATE 1\<rparr>) @ [(7, st0)] \<and>
     json_output p' = Some ''left'' \<and>
     state p' = STATE 1 \<and>
     stack p' = clear_stack st0"
proof -
  let ?p = "initial_parser\<lparr>state := STATE 1\<rparr>"
  have "\<exists>p' walk'. try_token call_keep_state direction_token ?p (buffer ''left'')
      = Inr (Matched p' walk')"
    by (simp add: eval_defs)
  then obtain p' walk' where
    a: "try_token call_keep_state direction_token ?p (buffer ''left'') = Inr (Matched p' walk')"
    by (elim exE)
  have c: "tok_next_state direction_token = CALL"
    by (simp add: direction_token_def)
  from dispatch_records_and_clears [OF a c] obtain st0 where
    s: "case tok_identifier direction_token of
          None \<Rightarrow> st0 = stack ?p
        | Some i \<Rightarrow>
            if name direction_token \<noteq> [] \<and> hd (name direction_token) = CHR 0x27 then
              push_string i (tl (name direction_token)) (stack ?p) = Inr st0
            else if name direction_token = ''string'' \<or> name direction_token = ''word'' then
              (\<exists>passed w. scan_capture direction_token (buffer ''left'') = Inr (passed, w) \<and>
                 passed \<noteq> [] \<and> push_string i (strncpy passed) (stack ?p) = Inr st0)
            else st0 = stack ?p"
    and r: "calls p' = calls ?p @ [(call_identifier direction_token, st0)]"
      "json_output p' = fst (call_keep_state (call_identifier direction_token) st0 (state ?p))"
      "state p' = snd (call_keep_state (call_identifier direction_token) st0 (state ?p))"
      "stack p' = clear_stack st0"
    by (elim exE conjE)
  from s have push: "push_string ''direction'' ''left'' (stack ?p) = Inr st0"
    by (simp add: direction_token_def scan_capture_def buffer_def NUL_def word_delimiter_def
        strncpy_def)
  then have get: "get_string ''direction'' st0 = Some ''left''"
    by (auto simp: initial_parser_def empty_stack_def free_entry_def eval_nat_numeral)
  from r get have r': "calls p' = calls ?p @ [(7, st0)]" "json_output p' = Some ''left''"
    "state p' = STATE 1"
    by (simp_all add: direction_token_def call_keep_state_def)
  from a c push get r' r(4) show ?thesis
    by (intro exI conjI)
qed

text \<open>
  C3, as the specification states it, fails when the call leaves the state alone: after
  \<open>move left\<close> the state is state 1, not \<open>INITIAL\<close>, and in \<open>move left right\<close> the
  word \<open>right\<close> is matched against the tokens of state 1 and calls function 7 again.
\<close>

theorem dispatch_state_counterexample:
  "map_option (map_sum id (state \<circ> globals))
     (parse_command call_keep_state example_tokens initial_parser ''move left'')
     = Some (Inr (STATE 1)) \<and>
   map_option (map_sum id (map fst \<circ> calls \<circ> globals))
     (parse_command call_keep_state example_tokens initial_parser ''move left'')
     = Some (Inr [7]) \<and>
   map_option (map_sum id (map fst \<circ> calls \<circ> globals))
     (parse_command call_keep_state example_tokens initial_parser ''move left right'')
     = Some (Inr [7, 7])"
  by (simp add: parse_command_def parse_loop.simps eval_defs)

lemma get_string_after_push:
  "push_string i s st = Inr st' \<Longrightarrow> \<forall>e \<in> set st. entry_identifier e \<noteq> Some i \<Longrightarrow>
   get_string i st' = Some s"
  by (induction st arbitrary: st') (auto split: if_splits sum.splits option.splits)

text \<open>
  C10. A literal token with an identifier that matches at the cursor (without regard to
  case), on a stack with a free slot: the text of the literal, that is the token's name
  without its leading quote mark, is stored under the identifier in a free slot before
  \<open>next_state\<close> runs. A lookup of the identifier then finds it (when no earlier entry
  has the identifier), and a call made by this token reads the stack with the entry on it.
\<close>

theorem literal_pushes_own_text:
  assumes "name t = CHR 0x27 # lit"
    and "tok_identifier t = Some i"
    and "strncasecmp_eq walk lit"
    and "\<exists>e \<in> set (stack p). entry_identifier e = None"
  shows "\<exists>st k. k < length (stack p) \<and> entry_identifier (stack p ! k) = None \<and>
           st = (stack p)[k := entry (i, lit)] \<and>
           try_token gc t p walk
             = Inr (Matched (next_state gc t (p\<lparr>stack := st\<rparr>)) (drop (length lit) walk)) \<and>
           ((\<forall>e \<in> set (stack p). entry_identifier e \<noteq> Some i) \<longrightarrow> get_string i st = Some lit) \<and>
           (tok_next_state t = CALL \<longrightarrow>
              calls (next_state gc t (p\<lparr>stack := st\<rparr>)) = calls p @ [(call_identifier t, st)])"
proof -
  from push_string_cases [of i lit "stack p"] assms(4)
  obtain k where k: "k < length (stack p)" "entry_identifier (stack p ! k) = None"
    "push_string i lit (stack p) = Inr ((stack p)[k := entry (i, lit)])"
    by (auto simp: entry_def)
  let ?st = "(stack p)[k := entry (i, lit)]"
  from assms(1-3) k(3)
  have "try_token gc t p walk
      = Inr (Matched (next_state gc t (p\<lparr>stack := ?st\<rparr>)) (drop (length lit) walk))"
    by (simp add: try_token_def push_identified_def)
  moreover have "(\<forall>e \<in> set (stack p). entry_identifier e \<noteq> Some i) \<longrightarrow> get_string i ?st = Some lit"
    using get_string_after_push [OF k(3)] by blast
  moreover have "tok_next_state t = CALL \<longrightarrow>
      calls (next_state gc t (p\<lparr>stack := ?st\<rparr>)) = calls p @ [(call_identifier t, ?st)]"
    by (simp add: next_state_calls)
  ultimately show ?thesis using k(1,2) by blast
qed

theorem literal_pushes_own_text_witness:
  "name left_token = CHR 0x27 # ''left'' \<and>
   tok_identifier left_token = Some ''direction'' \<and>
   strncasecmp_eq (buffer ''LEFT'') ''left'' \<and>
   (\<exists>e \<in> set (stack initial_parser). entry_identifier e = None) \<and>
   (\<exists>st k. k < length (stack initial_parser) \<and>
      entry_identifier (stack initial_parser ! k) = None \<and>
      st = (stack initial_parser)[k := entry (''direction'', ''left'')] \<and>
      try_token call_to_initial left_token initial_parser (buffer ''LEFT'')
        = Inr (Matched (next_state call_to_initial left_token (initial_parser\<lparr>stack := st\<rparr>))
                 (drop (length ''left'') (buffer ''LEFT''))) \<and>
      get_string ''direction'' st = Some ''left'' \<and>
      calls (next_state call_to_initial left_token (initial_parser\<lparr>stack := st\<rparr>))
        = calls initial_parser @ [(call_identifier left_token, st)])"
proof -
  have h1: "name left_token = CHR 0x27 # ''left''"
    and h2: "tok_identifier left_token = Some ''direction''"
    and h5: "tok_next_state left_token = CALL"
    by (simp_all add: left_token_def)
  have h3: "strncasecmp_eq (buffer ''LEFT'') ''left''"
    by (simp add: buffer_def tolower_def NUL_def)
  have h4: "\<exists>e \<in> set (stack initial_parser). entry_identifier e = None"
    by (simp add: initial_parser_def empty_stack_def free_entry_def)
  have h6: "\<forall>e \<in> set (stack initial_parser). entry_identifier e \<noteq> Some ''direction''"
    by (simp add: initial_parser_def empty_stack_def free_entry_def)
  from literal_pushes_own_text [OF h1 h2 h3 h4, of call_to_initial] h1 h2 h3 h4 h5 h6
  show ?thesis by blast
qed

subsection \<open>Scanning\<close>

text \<open>
  C1. The scan for the closing quote has no bound: on \<open>move "left\<close>, with no closing
  quote, it passes the terminating NUL and reads behind the buffer.
\<close>

theorem unterminated_quote_overruns:
  "parse_command call_to_initial example_tokens initial_parser (''move '' @ [CHR 0x22] @ ''left'')
     = Some (Inl BufferOverrun)"
  by (simp add: parse_command_def parse_loop.simps eval_defs)

lemma scan_quoted_no_quote:
  "CHR 0x22 \<notin> set cs \<Longrightarrow> scan_quoted prev cs = Inl BufferOverrun"
  by (induction cs arbitrary: prev) auto

lemma scan_quoted_body:
  assumes "\<forall>k < length body. body ! k = CHR 0x22 \<longrightarrow>
             (if k = 0 then prev = CHR 0x5C else body ! (k - 1) = CHR 0x5C)"
    and "(if body = [] then prev else last body) \<noteq> CHR 0x5C"
  shows "scan_quoted prev (body @ CHR 0x22 # rest) = Inr (body, CHR 0x22 # rest)"
  using assms
proof (induction body arbitrary: prev)
  case Nil
  then show ?case by simp
next
  case (Cons c cs)
  have 1: "\<forall>k < length cs. cs ! k = CHR 0x22 \<longrightarrow>
             (if k = 0 then c = CHR 0x5C else cs ! (k - 1) = CHR 0x5C)"
  proof (intro allI impI)
    fix k assume "k < length cs" "cs ! k = CHR 0x22"
    with Cons.prems(1) [rule_format, of "Suc k"]
    show "if k = 0 then c = CHR 0x5C else cs ! (k - 1) = CHR 0x5C"
      by (cases k) auto
  qed
  have 2: "(if cs = [] then c else last cs) \<noteq> CHR 0x5C"
    using Cons.prems(2) by (auto split: if_splits)
  have 3: "c \<noteq> CHR 0x22 \<or> prev = CHR 0x5C"
    using Cons.prems(1) [rule_format, of 0] by auto
  from Cons.IH [OF 1 2] 3 show ?case by auto
qed

lemma strncpy_no_NUL: "NUL \<notin> set s \<Longrightarrow> strncpy s = s"
  by (auto simp: strncpy_def takeWhile_eq_all_conv)

text \<open>
  C2, as the code has it. A quoted capture whose body is not empty, has every double
  quote preceded by a backslash and does not end in a backslash: the scan ends at the
  closing quote, the string pushed is the body as it stands in the input, backslashes
  included, and the cursor moves behind the closing quote.
\<close>

theorem quoted_capture_verbatim:
  assumes "name t = ''string'' \<or> name t = ''word''"
    and "body \<noteq> []"
    and "NUL \<notin> set body"
    and "\<forall>k < length body. body ! k = CHR 0x22 \<longrightarrow> 0 < k \<and> body ! (k - 1) = CHR 0x5C"
    and "last body \<noteq> CHR 0x5C"
  shows "try_token gc t p (CHR 0x22 # body @ CHR 0x22 # rest) =
           (case push_identified t body p of
              Inl x \<Rightarrow> Inl x
            | Inr p0 \<Rightarrow> Inr (Matched (next_state gc t p0) rest))"
proof -
  have "scan_quoted (CHR 0x22) (body @ CHR 0x22 # rest) = Inr (body, CHR 0x22 # rest)"
    using assms(2,4,5) by (intro scan_quoted_body) auto
  then have "scan_capture t (CHR 0x22 # body @ CHR 0x22 # rest) = Inr (body, CHR 0x22 # rest)"
    by (simp add: scan_capture_def)
  with assms(1,2) strncpy_no_NUL [OF assms(3)] show ?thesis
    by (auto simp: try_token_def split: sum.splits)
qed

theorem quoted_capture_verbatim_witness:
  "(name direction_token = ''string'' \<or> name direction_token = ''word'') \<and>
   [CHR ''a'', CHR 0x5C, CHR 0x22, CHR ''b''] \<noteq> [] \<and>
   NUL \<notin> set [CHR ''a'', CHR 0x5C, CHR 0x22, CHR ''b''] \<and>
   last [CHR ''a'', CHR 0x5C, CHR 0x22, CHR ''b''] \<noteq> CHR 0x5C \<and>
   try_token call_to_initial direction_token (initial_parser\<lparr>state := STATE 1\<rparr>)
     (CHR 0x22 # [CHR ''a'', CHR 0x5C, CHR 0x22, CHR ''b''] @ CHR 0x22 # [NUL]) =
     (case push_identified direction_token [CHR ''a'', CHR 0x5C, CHR 0x22, CHR ''b'']
             (initial_parser\<lparr>state := STATE 1\<rparr>) of
        Inl x \<Rightarrow> Inl x
      | Inr p0 \<Rightarrow> Inr (Matched (next_state call_to_initial direction_token p0) [NUL]))"
proof -
  have h1: "name direction_token = ''string'' \<or> name direction_token = ''word''"
    by (simp add: direction_token_def)
  have h2: "[CHR ''a'', CHR 0x5C, CHR 0x22, CHR ''b''] \<noteq> []" by simp
  have h3: "NUL \<notin> set [CHR ''a'', CHR 0x5C, CHR 0x22, CHR ''b'']"
    by (simp add: NUL_def)
  have h4: "\<forall>k < length [CHR ''a'', CHR 0x5C, CHR 0x22, CHR ''b''].
      [CHR ''a'', CHR 0x5C, CHR 0x22, CHR ''b''] ! k = CHR 0x22 \<longrightarrow>
      0 < k \<and> [CHR ''a'', CHR 0x5C, CHR 0x22, CHR ''b''] ! (k - 1) = CHR 0x5C"
    by (simp add: nth_Cons less_Suc_eq_0_disj split: nat.splits)
  have h5: "last [CHR ''a'', CHR 0x5C, CHR 0x22, CHR ''b''] \<noteq> CHR 0x5C" by simp
  from quoted_capture_verbatim [OF h1 h2 h3 h4 h5,
      of call_to_initial "initial_parser\<lparr>state := STATE 1\<rparr>" "[NUL]"] h1 h2 h3 h4 h5
  show ?thesis by blast
qed

text \<open>
  C2, as the specification states it, fails: from \<open>move "a\"b"\<close> the string handed to
  the call is \<open>a\"b\<close>, four bytes with the backslash, not \<open>a"b\<close>.
\<close>

theorem quoted_capture_unescaped_counterexample:
  "map_option (map_sum id returned)
     (parse_command call_to_initial example_tokens initial_parser
        (''move '' @ [CHR 0x22, CHR ''a'', CHR 0x5C, CHR 0x22, CHR ''b'', CHR 0x22]))
     = Some (Inr (Some [CHR ''a'', CHR 0x5C, CHR 0x22, CHR ''b''])) \<and>
   map_option (map_sum id returned)
     (parse_command call_to_initial example_tokens initial_parser
        (''move '' @ [CHR 0x22, CHR ''a'', CHR 0x5C, CHR 0x22, CHR ''b'', CHR 0x22]))
     \<noteq> Some (Inr (Some [CHR ''a'', CHR 0x22, CHR ''b'']))"
  by code_simp

text \<open>
  An unquoted capture of length zero leaves the cursor where it was and the token is not
  handled.
\<close>

lemma unquoted_empty_capture_no_match:
  assumes "name t = ''string'' \<and> string_delimiter c \<or> name t = ''word'' \<and> word_delimiter c"
  shows "try_token gc t p (c # cs) = Inr (NoMatch (c # cs))"
proof -
  from assms have q: "c \<noteq> CHR 0x22"
    by (auto simp: string_delimiter_def word_delimiter_def NUL_def)
  from assms have "scan_capture t (c # cs) = Inr ([], c # cs)"
    unfolding scan_capture_def using q by auto
  with assms show ?thesis
    unfolding try_token_def by auto
qed

text \<open>
  C9. An empty quoted capture is not handled either, but the cursor stays behind the
  opening quote: on \<open>""\<close> the word token gives no match with the cursor at the second
  quote, and the error for \<open>move ""\<close> marks column 6, not column 5.
\<close>

theorem empty_quoted_capture_moves_cursor:
  "try_token call_to_initial direction_token (initial_parser\<lparr>state := STATE 1\<rparr>)
     (buffer [CHR 0x22, CHR 0x22]) = Inr (NoMatch [CHR 0x22, NUL]) \<and>
   map_option (map_sum id printed)
     (parse_command call_to_initial example_tokens initial_parser
        (''move '' @ [CHR 0x22, CHR 0x22]))
     = Some (Inr [''Expected one of these tokens: <word>'',
                  ''Your command: move '' @ [CHR 0x22, CHR 0x22],
                  ''                    ^''])"
  by code_simp

subsection \<open>Errors\<close>









subsection \<open>Two commands in one input\<close>

text \<open>
  What the scanners do on an input that ends at its NUL, they do on the same bytes
  followed by a semicolon: neither byte is white space, both are delimiters of strings and
  words, both are accepted by \<open>end\<close>, and no literal without a semicolon matches across
  either.
\<close>

lemma tolower_NUL [simp]: "tolower c = tolower NUL \<longleftrightarrow> c = NUL"
  by (auto simp: tolower_def NUL_def split: option.splits if_splits)

lemma tolower_semicolon [simp]: "tolower c = tolower (CHR 0x3B) \<longleftrightarrow> c = CHR 0x3B"
  by (auto simp: tolower_def split: option.splits if_splits)






























end
